theory Spec2Isabelle
  imports Main "HOL-Library.Word"
begin

section \<open>Data model of contracts/BaseRegistry.sol\<close>

text \<open>
  An \<open>address\<close> is a 160-bit word; \<open>address(0)\<close> is the word \<open>0\<close>.
  A \<open>uint256\<close> (fee, timestamps, wei amounts) is a natural number: the contract only
  compares these values and subtracts once, \<open>msg.value - registrationFee\<close> (line 107),
  under the guard \<open>msg.value > registrationFee\<close> (line 106), so neither the checked
  arithmetic of Solidity 0.8 nor a wrap-around can be reached.
  A \<open>string\<close> is a list of bytes, and \<open>bytes(x).length\<close> is \<open>length x\<close>.
\<close>

type_synonym address = "160 word"

definition MAX_NAME_LENGTH :: nat where
  "MAX_NAME_LENGTH = 32"

definition MAX_DATA_LENGTH :: nat where
  "MAX_DATA_LENGTH = 256"

record Record =
  owner :: address
  data :: string
  createdAt :: nat
  updatedAt :: nat

text \<open>The value a Solidity mapping holds at a key that was never written.\<close>

definition empty_record :: Record where
  "empty_record = \<lparr>owner = 0, data = [], createdAt = 0, updatedAt = 0\<rparr>"

datatype event =
    Registered string address string nat
  | Updated string address string nat
  | Transferred string address address nat
  | FeeUpdated nat nat
  | FundsWithdrawn address nat
  | Paused address
  | Unpaused address
  | OwnershipTransferred address address

text \<open>
  A revert is a value: \<open>Revert msg\<close> is a failed \<open>require(..., msg)\<close> of the contract,
  the other constructors are the custom errors of the inherited OpenZeppelin contracts
  (the tests expect \<open>EnforcedPause\<close> and \<open>OwnableUnauthorizedAccount\<close> by name), and
  \<open>InsufficientBalance\<close> is the host refusing a call whose sender cannot pay the
  attached value.
\<close>

datatype error =
    Revert string
  | EnforcedPause
  | ExpectedPause
  | ReentrancyGuardReentrantCall
  | OwnableUnauthorizedAccount address
  | OwnableInvalidOwner address
  | InsufficientBalance

datatype guard = NOT_ENTERED | ENTERED

text \<open>
  The storage of the contract (\<open>registrationFee\<close>, \<open>_registry\<close>, \<open>_ownedNames\<close>), the
  storage of the three contracts it inherits from (\<open>_owner\<close> of Ownable, \<open>_paused\<close> of
  Pausable, \<open>_status\<close> of ReentrancyGuard), the log of emitted events, and the part of the
  ledger the contract reads and writes: its own address \<open>address(this)\<close> and the wei
  balance of every account.
\<close>

record state =
  registrationFee :: nat
  registry :: "string \<Rightarrow> Record"
  ownedNames :: "address \<Rightarrow> string list"
  ownable_owner :: address
  paused :: bool
  status :: guard
  events :: "event list"
  this :: address
  balances :: "address \<Rightarrow> nat"

text \<open>What a call sees of its transaction: \<open>msg.sender\<close> and \<open>block.timestamp\<close>.\<close>

record env =
  msg_sender :: address
  block_timestamp :: nat

section \<open>Host operations\<close>

definition emit :: "state \<Rightarrow> event \<Rightarrow> state" where
  "emit s ev = s\<lparr>events := events s @ [ev]\<rparr>"

definition move_wei :: "state \<Rightarrow> address \<Rightarrow> address \<Rightarrow> nat \<Rightarrow> state" where
  "move_wei s src dst amount =
     (let b = (balances s)(src := balances s src - amount)
      in s\<lparr>balances := b(dst := b dst + amount)\<rparr>)"

text \<open>
  A \<open>payable\<close> function receives \<open>msg.value\<close> before its body runs: the host moves the
  value from the sender to the contract, and refuses the call when the sender does not
  hold it.
\<close>

definition payable :: "state \<Rightarrow> env \<Rightarrow> nat \<Rightarrow> (state \<Rightarrow> error + state) \<Rightarrow> error + state" where
  "payable s e msg_value body =
     (if balances s (msg_sender e) < msg_value then Inl InsufficientBalance
      else body (move_wei s (msg_sender e) (this s) msg_value))"

text \<open>Line 245: \<open>receive() external payable {}\<close>.\<close>

definition receive :: "state \<Rightarrow> env \<Rightarrow> nat \<Rightarrow> error + state" where
  "receive s e msg_value = payable s e msg_value (\<lambda>s. Inr s)"

text \<open>
  The low-level call \<open>target.call{value: amount}("")\<close>. It fails when the contract does
  not hold \<open>amount\<close>. When the target is the contract itself, the call runs the
  contract's own \<open>receive\<close> function. Any other target is code outside the repository.
  The flag \<open>accepts\<close> says whether that code returns normally; when it does not, the
  call fails and everything done during it is undone. When it does, the wei has moved and
  the state is the one left by \<open>callback\<close>: the calls into the registry that the target
  made while it ran. What the target does elsewhere with its own wei is outside the
  model: the ledger follows the wei that the registry receives and sends.
\<close>

definition call_value ::
  "state \<Rightarrow> env \<Rightarrow> address \<Rightarrow> nat \<Rightarrow> bool \<Rightarrow> (state \<Rightarrow> state) \<Rightarrow> bool \<times> state" where
  "call_value s e target amount accepts callback =
     (if balances s (this s) < amount then (False, s)
      else if target = this s then
        (case receive s (e\<lparr>msg_sender := this s\<rparr>) amount of
           Inl err \<Rightarrow> (False, s)
         | Inr s' \<Rightarrow> (True, s'))
      else if accepts then (True, callback (move_wei s (this s) target amount))
      else (False, s))"

section \<open>Inherited modifiers and functions\<close>

text \<open>
  Modelled from the spec: the modifier \<open>whenNotPaused\<close> of OpenZeppelin's Pausable
  (imported at line 6, not among the sources). Section 7 of the specification: an
  operation attempted while paused aborts with a distinct reason; the tests name that
  reason \<open>EnforcedPause\<close>.
\<close>

definition whenNotPaused :: "state \<Rightarrow> (state \<Rightarrow> error + state) \<Rightarrow> error + state" where
  "whenNotPaused s body = (if paused s then Inl EnforcedPause else body s)"

text \<open>
  Modelled from the spec: the modifier \<open>whenPaused\<close> of OpenZeppelin's Pausable
  (imported at line 6, not among the sources), the guard of \<open>_unpause\<close>. Section 4.5 of
  the specification: the guards reject pausing an already paused registry and the
  converse where the host framework enforces that, which Pausable does.
\<close>

definition whenPaused :: "state \<Rightarrow> (state \<Rightarrow> error + state) \<Rightarrow> error + state" where
  "whenPaused s body = (if \<not> paused s then Inl ExpectedPause else body s)"

text \<open>
  Modelled from the spec: the modifier \<open>nonReentrant\<close> of OpenZeppelin's ReentrancyGuard
  (imported at line 5, not among the sources). Section 9 of the specification: a flag
  that marks the critical section, refused on entry when set and released when the
  operation returns.
\<close>

definition nonReentrant :: "state \<Rightarrow> (state \<Rightarrow> error + state) \<Rightarrow> error + state" where
  "nonReentrant s body =
     (if status s = ENTERED then Inl ReentrancyGuardReentrantCall
      else case body (s\<lparr>status := ENTERED\<rparr>) of
             Inl err \<Rightarrow> Inl err
           | Inr s' \<Rightarrow> Inr (s'\<lparr>status := NOT_ENTERED\<rparr>))"

text \<open>
  Modelled from the spec: the modifier \<open>onlyOwner\<close> of OpenZeppelin's Ownable (imported
  at line 4, not among the sources). Section 4.5 of the specification: the caller must be
  the admin; the tests name the rejection \<open>OwnableUnauthorizedAccount\<close>.
\<close>

definition onlyOwner :: "state \<Rightarrow> env \<Rightarrow> (state \<Rightarrow> error + state) \<Rightarrow> error + state" where
  "onlyOwner s e body =
     (if ownable_owner s \<noteq> msg_sender e then Inl (OwnableUnauthorizedAccount (msg_sender e))
      else body s)"

text \<open>
  Modelled from the spec: the internal functions \<open>_pause\<close> and \<open>_unpause\<close> of
  OpenZeppelin's Pausable (imported at line 6, not among the sources). Section 4.5 of
  the specification: they set and clear \<open>paused\<close> behind the guards above.
\<close>

definition pause_internal :: "state \<Rightarrow> env \<Rightarrow> error + state" where
  "pause_internal s e =
     whenNotPaused s (\<lambda>s. Inr (emit (s\<lparr>paused := True\<rparr>) (Paused (msg_sender e))))"

definition unpause_internal :: "state \<Rightarrow> env \<Rightarrow> error + state" where
  "unpause_internal s e =
     whenPaused s (\<lambda>s. Inr (emit (s\<lparr>paused := False\<rparr>) (Unpaused (msg_sender e))))"

text \<open>
  Modelled from the spec: the public functions \<open>transferOwnership\<close> and
  \<open>renounceOwnership\<close> that the contract inherits from OpenZeppelin's Ownable (imported
  at line 4, not among the sources). Section 3 of the specification keeps \<open>admin\<close> as a
  single privileged account and names no operation that changes it; the two inherited
  functions are the only ones that do, both reserved to the admin, and they are part of
  every history so that the theorems about histories cover them.
\<close>

definition transferOwnership :: "state \<Rightarrow> env \<Rightarrow> address \<Rightarrow> error + state" where
  "transferOwnership s e newOwner =
     onlyOwner s e (\<lambda>s.
       if newOwner = 0 then Inl (OwnableInvalidOwner 0)
       else Inr (emit (s\<lparr>ownable_owner := newOwner\<rparr>)
                   (OwnershipTransferred (ownable_owner s) newOwner)))"

definition renounceOwnership :: "state \<Rightarrow> env \<Rightarrow> error + state" where
  "renounceOwnership s e =
     onlyOwner s e (\<lambda>s.
       Inr (emit (s\<lparr>ownable_owner := 0\<rparr>) (OwnershipTransferred (ownable_owner s) 0)))"

section \<open>The functions of BaseRegistry\<close>

text \<open>
  Lines 65 to 67. \<open>self\<close> is the address the contract is deployed at and \<open>ledger\<close> the
  balances at that moment; \<open>Ownable(msg.sender)\<close> refuses the zero address.
\<close>

definition constructor :: "address \<Rightarrow> (address \<Rightarrow> nat) \<Rightarrow> address \<Rightarrow> nat \<Rightarrow> error + state" where
  "constructor self ledger deployer initialFee =
     (if deployer = 0 then Inl (OwnableInvalidOwner 0)
      else Inr \<lparr>registrationFee = initialFee,
                registry = (\<lambda>name. empty_record),
                ownedNames = (\<lambda>account. []),
                ownable_owner = deployer,
                paused = False,
                status = NOT_ENTERED,
                events = [OwnershipTransferred 0 deployer],
                this = self,
                balances = ledger\<rparr>)"

text \<open>
  Lines 82 to 110. The modifiers run in the order they are written, before the body.
  \<open>accepts\<close> and \<open>callback\<close> are what the code of the refund's recipient does,
  should the body call it.
\<close>

definition register ::
  "state \<Rightarrow> env \<Rightarrow> nat \<Rightarrow> string \<Rightarrow> string \<Rightarrow> bool \<Rightarrow> (state \<Rightarrow> state) \<Rightarrow> error + state" where
  "register s e msg_value name dat accepts callback =
     payable s e msg_value (\<lambda>s. whenNotPaused s (\<lambda>s. nonReentrant s (\<lambda>s.
       if \<not> (length name > 0) then Inl (Revert ''Name cannot be empty'')
       else if \<not> (length name \<le> MAX_NAME_LENGTH) then Inl (Revert ''Name too long'')
       else if \<not> (length dat \<le> MAX_DATA_LENGTH) then Inl (Revert ''Data too long'')
       else if \<not> (owner (registry s name) = 0) then Inl (Revert ''Name already registered'')
       else if \<not> (msg_value \<ge> registrationFee s) then Inl (Revert ''Insufficient fee'')
       else
         let s = s\<lparr>registry := (registry s)(name :=
                     \<lparr>owner = msg_sender e, data = dat,
                      createdAt = block_timestamp e, updatedAt = block_timestamp e\<rparr>)\<rparr>;
             s = s\<lparr>ownedNames := (ownedNames s)(msg_sender e :=
                     ownedNames s (msg_sender e) @ [name])\<rparr>;
             s = emit s (Registered name (msg_sender e) dat (block_timestamp e))
         in if msg_value > registrationFee s then
              (case call_value s e (msg_sender e) (msg_value - registrationFee s) accepts callback of
                 (success, s) \<Rightarrow>
                   if \<not> success then Inl (Revert ''Refund failed'') else Inr s)
            else Inr s)))"

text \<open>Lines 122 to 133.\<close>

definition update :: "state \<Rightarrow> env \<Rightarrow> string \<Rightarrow> string \<Rightarrow> error + state" where
  "update s e name dat =
     whenNotPaused s (\<lambda>s.
       if \<not> (owner (registry s name) = msg_sender e) then Inl (Revert ''Not the owner'')
       else if \<not> (length dat \<le> MAX_DATA_LENGTH) then Inl (Revert ''Data too long'')
       else
         let s = s\<lparr>registry := (registry s)(name := (registry s name)\<lparr>data := dat\<rparr>)\<rparr>;
             s = s\<lparr>registry := (registry s)(name :=
                     (registry s name)\<lparr>updatedAt := block_timestamp e\<rparr>)\<rparr>
         in Inr (emit s (Updated name (msg_sender e) dat (block_timestamp e))))"

text \<open>Lines 145 to 161.\<close>

definition transfer :: "state \<Rightarrow> env \<Rightarrow> string \<Rightarrow> address \<Rightarrow> error + state" where
  "transfer s e name newOwner =
     whenNotPaused s (\<lambda>s.
       if \<not> (owner (registry s name) = msg_sender e) then Inl (Revert ''Not the owner'')
       else if \<not> (newOwner \<noteq> 0) then Inl (Revert ''Invalid new owner'')
       else if \<not> (newOwner \<noteq> msg_sender e) then Inl (Revert ''Already the owner'')
       else
         let previousOwner = msg_sender e;
             s = s\<lparr>registry := (registry s)(name := (registry s name)\<lparr>owner := newOwner\<rparr>)\<rparr>;
             s = s\<lparr>registry := (registry s)(name :=
                     (registry s name)\<lparr>updatedAt := block_timestamp e\<rparr>)\<rparr>;
             s = s\<lparr>ownedNames := (ownedNames s)(newOwner :=
                     ownedNames s newOwner @ [name])\<rparr>
         in Inr (emit s (Transferred name previousOwner newOwner (block_timestamp e))))"

text \<open>Lines 171 to 201 and the getter of the public variable \<open>registrationFee\<close>: the views.\<close>

definition getRecord :: "state \<Rightarrow> string \<Rightarrow> address \<times> string \<times> nat \<times> nat" where
  "getRecord s name =
     (let record = registry s name
      in (owner record, data record, createdAt record, updatedAt record))"

definition isAvailable :: "state \<Rightarrow> string \<Rightarrow> bool" where
  "isAvailable s name = (owner (registry s name) = 0)"

definition getOwnedNames :: "state \<Rightarrow> address \<Rightarrow> string list" where
  "getOwnedNames s account = ownedNames s account"

text \<open>Lines 207 to 225.\<close>

definition setRegistrationFee :: "state \<Rightarrow> env \<Rightarrow> nat \<Rightarrow> error + state" where
  "setRegistrationFee s e newFee =
     onlyOwner s e (\<lambda>s.
       let oldFee = registrationFee s;
           s = s\<lparr>registrationFee := newFee\<rparr>
       in Inr (emit s (FeeUpdated oldFee newFee)))"

definition pause :: "state \<Rightarrow> env \<Rightarrow> error + state" where
  "pause s e = onlyOwner s e (\<lambda>s. pause_internal s e)"

definition unpause :: "state \<Rightarrow> env \<Rightarrow> error + state" where
  "unpause s e = onlyOwner s e (\<lambda>s. unpause_internal s e)"

text \<open>
  Lines 231 to 240. \<open>accepts\<close> and \<open>callback\<close> are what the code of the payout's
  recipient does.
\<close>

definition withdraw ::
  "state \<Rightarrow> env \<Rightarrow> address \<Rightarrow> bool \<Rightarrow> (state \<Rightarrow> state) \<Rightarrow> error + state" where
  "withdraw s e target accepts callback =
     onlyOwner s e (\<lambda>s. nonReentrant s (\<lambda>s.
       if \<not> (target \<noteq> 0) then Inl (Revert ''Invalid address'')
       else
         let balance = balances s (this s)
         in if \<not> (balance > 0) then Inl (Revert ''No funds to withdraw'')
            else
              (case call_value s e target balance accepts callback of
                 (success, s) \<Rightarrow>
                   if \<not> success then Inl (Revert ''Withdrawal failed'')
                   else Inr (emit s (FundsWithdrawn target balance)))))"

section \<open>Transactions\<close>

text \<open>
  One call to the contract. The two payable entry points carry the attached value; the
  other functions are not payable and are called without value. The two functions that
  call out carry what the called code does: whether it accepts, and the calls it makes
  into the registry while it runs, each with its sender (the called contract or one it
  calls in turn).
\<close>

datatype call =
    Register string string nat bool "(address \<times> call) list"
  | Update string string
  | Transfer string address
  | SetRegistrationFee nat
  | Pause
  | Unpause
  | Withdraw address bool "(address \<times> call) list"
  | Receive nat
  | TransferOwnership address
  | RenounceOwnership

text \<open>
  \<open>execute\<close> dispatches one call. \<open>reenter\<close> runs the calls made from inside a refund
  or payout, in the same block: one that reverts leaves the state it started from, one
  that returns commits.
\<close>

fun execute :: "state \<Rightarrow> env \<Rightarrow> call \<Rightarrow> error + state"
  and reenter :: "state \<Rightarrow> env \<Rightarrow> (address \<times> call) list \<Rightarrow> state" where
  "execute s e (Register name dat msg_value accepts calls) =
     register s e msg_value name dat accepts (\<lambda>s. reenter s e calls)"
| "execute s e (Update name dat) = update s e name dat"
| "execute s e (Transfer name newOwner) = transfer s e name newOwner"
| "execute s e (SetRegistrationFee newFee) = setRegistrationFee s e newFee"
| "execute s e Pause = pause s e"
| "execute s e Unpause = unpause s e"
| "execute s e (Withdraw target accepts calls) =
     withdraw s e target accepts (\<lambda>s. reenter s e calls)"
| "execute s e (Receive msg_value) = receive s e msg_value"
| "execute s e (TransferOwnership newOwner) = transferOwnership s e newOwner"
| "execute s e RenounceOwnership = renounceOwnership s e"
| "reenter s e [] = s"
| "reenter s e ((sender, c) # rest) =
     reenter (case execute s (e\<lparr>msg_sender := sender\<rparr>) c of Inl err \<Rightarrow> s | Inr s' \<Rightarrow> s')
       e rest"

text \<open>A call that reverts leaves the state it started from; a call that returns commits.\<close>

definition apply_call :: "state \<Rightarrow> env \<Rightarrow> call \<Rightarrow> state" where
  "apply_call s e c = (case execute s e c of Inl err \<Rightarrow> s | Inr s' \<Rightarrow> s')"

fun run :: "state \<Rightarrow> (env \<times> call) list \<Rightarrow> state" where
  "run s [] = s"
| "run s ((e, c) # rest) = run (apply_call s e c) rest"

definition succeeds :: "state \<Rightarrow> env \<Rightarrow> call \<Rightarrow> bool" where
  "succeeds s e c = (case execute s e c of Inl err \<Rightarrow> False | Inr s' \<Rightarrow> True)"

section \<open>Histories\<close>


text \<open>
  The calls that the code called by a call makes into the registry, whether a call is a
  direct deposit, and whether the code called by a call deposits nothing back.
\<close>

fun callbacks :: "call \<Rightarrow> (address \<times> call) list" where
  "callbacks (Register name dat msg_value accepts calls) = calls"
| "callbacks (Withdraw target accepts calls) = calls"
| "callbacks c = []"

fun is_deposit :: "call \<Rightarrow> bool" where
  "is_deposit (Receive msg_value) = True"
| "is_deposit c = False"

definition no_deposit_back :: "call \<Rightarrow> bool" where
  "no_deposit_back c = list_all (\<lambda>(sender, inner). \<not> is_deposit inner) (callbacks c)"


text \<open>Calls of a history that went through: registrations, deposits, withdrawals.\<close>

fun registers :: "call \<Rightarrow> string \<Rightarrow> bool" where
  "registers (Register n dat msg_value accepts calls) name = (n = name)"
| "registers c name = False"














text \<open>
  The invariant behind the timestamps: every record was created no later than it was last
  updated, and last updated no later than \<open>t\<close>. And what calls made at time \<open>now\<close> can
  have done to the records between two states: the invariant holds, every record that
  existed still exists with the \<open>createdAt\<close> it had, and no \<open>updatedAt\<close> went back.
\<close>

definition timestamps_ok :: "nat \<Rightarrow> state \<Rightarrow> bool" where
  "timestamps_ok t s \<longleftrightarrow>
     (\<forall>name. createdAt (registry s name) \<le> updatedAt (registry s name)
           \<and> updatedAt (registry s name) \<le> t)"

definition evolves :: "nat \<Rightarrow> state \<Rightarrow> state \<Rightarrow> bool" where
  "evolves now s s' \<longleftrightarrow>
     timestamps_ok now s'
     \<and> (\<forall>name. (owner (registry s name) \<noteq> 0 \<longrightarrow>
                   owner (registry s' name) \<noteq> 0
                 \<and> createdAt (registry s' name) = createdAt (registry s name))
              \<and> updatedAt (registry s name) \<le> updatedAt (registry s' name))"

section \<open>A deployment used to exercise the theorems\<close>

text \<open>
  The registry deployed at address 100 by account 1 with a fee of 1000 wei; accounts 2
  and 3 hold 5000 wei each.
\<close>

definition genesis :: state where
  "genesis = \<lparr>registrationFee = 1000,
              registry = (\<lambda>name. empty_record),
              ownedNames = (\<lambda>account. []),
              ownable_owner = 1,
              paused = False,
              status = NOT_ENTERED,
              events = [OwnershipTransferred 0 1],
              this = 100,
              balances = (\<lambda>account. if account = 2 \<or> account = 3 then 5000 else 0)\<rparr>"

definition at :: "address \<Rightarrow> nat \<Rightarrow> env" where
  "at sender time = \<lparr>msg_sender = sender, block_timestamp = time\<rparr>"

text \<open>The same registry paused by its admin, with a name registered, and both.\<close>

definition genesis_paused :: state where
  "genesis_paused = apply_call genesis (at 1 5) Pause"

definition alice_registered :: state where
  "alice_registered = apply_call genesis (at 2 7) (Register ''alice'' ''hello'' 1000 True [])"

definition alice_paused :: state where
  "alice_paused = apply_call alice_registered (at 1 8) Pause"

text \<open>The same deployment at an address that already holds 5 wei.\<close>

definition prefunded :: state where
  "prefunded = genesis\<lparr>balances := (balances genesis)(100 := 5)\<rparr>"

text \<open>The state inside a refund or payout: the guard of \<open>nonReentrant\<close> is set.\<close>

definition alice_entered :: state where
  "alice_entered = alice_registered\<lparr>status := ENTERED\<rparr>"

section \<open>Unfolding the calls\<close>

lemmas modifier_defs = payable_def whenNotPaused_def whenPaused_def nonReentrant_def
  onlyOwner_def call_value_def receive_def move_wei_def emit_def
  MAX_NAME_LENGTH_def MAX_DATA_LENGTH_def

lemmas call_defs = apply_call_def succeeds_def register_def update_def transfer_def
  setRegistrationFee_def pause_def unpause_def withdraw_def pause_internal_def
  unpause_internal_def transferOwnership_def renounceOwnership_def

lemmas example_defs = genesis_def at_def empty_record_def genesis_paused_def
  alice_registered_def alice_paused_def alice_entered_def prefunded_def

lemma genesis_constructed:
  "constructor 100 (\<lambda>account. if account = 2 \<or> account = 3 then 5000 else 0) 1 1000 = Inr genesis"
  by (simp add: constructor_def genesis_def)

lemma prefunded_constructed:
  "constructor 100 (\<lambda>account. if account = 100 then 5 else if account = 2 \<or> account = 3
      then 5000 else 0) 1 1000 = Inr prefunded"
  by (auto simp: constructor_def prefunded_def genesis_def)

lemma succeeds_execute: "succeeds s e c \<Longrightarrow> execute s e c = Inr (apply_call s e c)"
  by (simp add: succeeds_def apply_call_def split: sum.splits)

lemma failed_apply_call: "\<not> succeeds s e c \<Longrightarrow> apply_call s e c = s"
  by (simp add: succeeds_def apply_call_def split: sum.splits)

lemma reenter_Cons [simp]:
  "reenter s e ((sender, c) # rest) = reenter (apply_call s (e\<lparr>msg_sender := sender\<rparr>) c) e rest"
  by (simp add: apply_call_def)

declare reenter.simps(2) [simp del]

lemma not_entered: "(x \<noteq> ENTERED) = (x = NOT_ENTERED)"
  by (cases x) simp_all

section \<open>Effects of single calls\<close>

text \<open>
  What a registration that returns has done: \<open>t\<close> is the state in which the refund is
  made, and the state returned is \<open>t\<close>, or what the recipient's calls made of it, with the
  guard released. Likewise for a withdrawal, whose event follows the payout.
\<close>

lemma constructor_effect:
  assumes "constructor self ledger deployer initialFee = Inr s0"
  shows "registry s0 = (\<lambda>name. empty_record)" and "status s0 = NOT_ENTERED"
    and "this s0 = self" and "balances s0 = ledger" and "registrationFee s0 = initialFee"
    and "ownable_owner s0 = deployer" and "\<not> paused s0"
  using assms
  by (auto simp: constructor_def split: if_splits)

lemma register_result:
  assumes "register s e msg_value name dat accepts callback = Inr s'"
  obtains t where "status t = ENTERED"
    and "registry t = (registry s)(name := \<lparr>owner = msg_sender e, data = dat,
            createdAt = block_timestamp e, updatedAt = block_timestamp e\<rparr>)"
    and "ownedNames t = (ownedNames s)(msg_sender e := ownedNames s (msg_sender e) @ [name])"
    and "registrationFee t = registrationFee s"
    and "paused t = paused s"
    and "ownable_owner t = ownable_owner s"
    and "this t = this s"
    and "events t = events s @ [Registered name (msg_sender e) dat (block_timestamp e)]"
    and "msg_sender e \<noteq> this s \<longrightarrow>
           balances t (this s) = balances s (this s) + registrationFee s
         \<and> balances t (msg_sender e)
             = balances s (msg_sender e) - msg_value + (msg_value - registrationFee s)"
    and "s' = t\<lparr>status := NOT_ENTERED\<rparr>
         \<or> (registrationFee s < msg_value \<and> accepts \<and> msg_sender e \<noteq> this s
             \<and> s' = (callback t)\<lparr>status := NOT_ENTERED\<rparr>)"
proof -
  let ?s1 = "(move_wei s (msg_sender e) (this s) msg_value)\<lparr>status := ENTERED\<rparr>"
  let ?s2 = "emit (?s1\<lparr>registry := (registry s)(name := \<lparr>owner = msg_sender e, data = dat,
            createdAt = block_timestamp e, updatedAt = block_timestamp e\<rparr>),
          ownedNames := (ownedNames s)(msg_sender e := ownedNames s (msg_sender e) @ [name])\<rparr>)
          (Registered name (msg_sender e) dat (block_timestamp e))"
  show ?thesis
  proof (cases "registrationFee s < msg_value \<and> msg_sender e \<noteq> this s")
    case True
    let ?t = "move_wei ?s2 (this s) (msg_sender e) (msg_value - registrationFee s)"
    from assms True have "accepts \<and> s' = (callback ?t)\<lparr>status := NOT_ENTERED\<rparr>"
      and "msg_value \<le> balances s (msg_sender e)"
      by (auto simp: register_def modifier_defs Let_def split: if_splits)
    moreover from True have "this s \<noteq> msg_sender e" "registrationFee s < msg_value"
      by auto
    ultimately show ?thesis
      by (intro that [of ?t]) (simp_all add: modifier_defs Let_def)
  next
    case False
    let ?t = "s'\<lparr>status := ENTERED\<rparr>"
    from assms False have "registry ?t = registry ?s2 \<and> ownedNames ?t = ownedNames ?s2
        \<and> registrationFee ?t = registrationFee s \<and> paused ?t = paused s
        \<and> ownable_owner ?t = ownable_owner s \<and> this ?t = this s
        \<and> events ?t = events ?s2
        \<and> (msg_sender e \<noteq> this s \<longrightarrow>
           balances ?t (this s) = balances s (this s) + registrationFee s
         \<and> balances ?t (msg_sender e)
             = balances s (msg_sender e) - msg_value + (msg_value - registrationFee s))
        \<and> s' = ?t\<lparr>status := NOT_ENTERED\<rparr>"
      by (auto simp: register_def modifier_defs Let_def not_entered split: if_splits)
    then show ?thesis
      by (intro that [of ?t]) (simp_all add: modifier_defs Let_def)
  qed
qed

lemma withdraw_result:
  assumes "withdraw s e target accepts callback = Inr s'"
  obtains t where "status t = ENTERED"
    and "registry t = registry s"
    and "ownedNames t = ownedNames s"
    and "registrationFee t = registrationFee s"
    and "paused t = paused s"
    and "ownable_owner t = ownable_owner s"
    and "this t = this s"
    and "events t = events s"
    and "target = this s \<longrightarrow> balances t = balances s"
    and "target \<noteq> this s \<longrightarrow>
           balances t = (balances s)(this s := 0,
             target := balances s target + balances s (this s))"
    and "s' = (emit t (FundsWithdrawn target (balances s (this s))))\<lparr>status := NOT_ENTERED\<rparr>
         \<or> (accepts \<and> target \<noteq> this s
             \<and> s' = (emit (callback t) (FundsWithdrawn target (balances s (this s))))
                      \<lparr>status := NOT_ENTERED\<rparr>)"
proof (cases "target = this s")
  case True
  let ?t = "s\<lparr>status := ENTERED\<rparr>"
  from assms True
  have "s' = (emit ?t (FundsWithdrawn target (balances s (this s))))\<lparr>status := NOT_ENTERED\<rparr>"
    by (auto simp: withdraw_def modifier_defs Let_def not_entered split: if_splits)
  with True show ?thesis
    by (intro that [of ?t]) simp_all
next
  case False
  let ?t = "move_wei (s\<lparr>status := ENTERED\<rparr>) (this s) target (balances s (this s))"
  from assms False
  have "accepts \<and> s' = (emit (callback ?t) (FundsWithdrawn target (balances s (this s))))
                      \<lparr>status := NOT_ENTERED\<rparr>"
    by (auto simp: withdraw_def modifier_defs Let_def not_entered split: if_splits)
  with False show ?thesis
    by (intro that [of ?t]) (simp_all add: modifier_defs Let_def)
qed

lemma update_effect:
  assumes "update s e name dat = Inr s'"
  shows "s' = s\<lparr>registry := (registry s)(name :=
                 (registry s name)\<lparr>data := dat, updatedAt := block_timestamp e\<rparr>),
               events := events s @ [Updated name (msg_sender e) dat (block_timestamp e)]\<rparr>"
  using assms
  by (auto simp: update_def modifier_defs Let_def split: if_splits)

lemma transfer_effect:
  assumes "transfer s e name newOwner = Inr s'"
  shows "s' = s\<lparr>registry := (registry s)(name :=
                 (registry s name)\<lparr>owner := newOwner, updatedAt := block_timestamp e\<rparr>),
               ownedNames := (ownedNames s)(newOwner := ownedNames s newOwner @ [name]),
               events := events s
                 @ [Transferred name (msg_sender e) newOwner (block_timestamp e)]\<rparr>"
    and "newOwner \<noteq> 0"
    and "owner (registry s name) = msg_sender e"
  using assms
  by (auto simp: transfer_def modifier_defs Let_def split: if_splits)

lemma pause_effect:
  assumes "pause s e = Inr s'"
  shows "s' = s\<lparr>paused := True, events := events s @ [Paused (msg_sender e)]\<rparr>"
  using assms
  by (auto simp: pause_def pause_internal_def modifier_defs split: if_splits)

lemma register_valid:
  assumes "register s e msg_value name dat accepts callback = Inr s'"
  shows "status s = NOT_ENTERED" and "owner (registry s name) = 0"
    and "0 < length name" and "length name \<le> 32" and "\<not> paused s"
  using assms
  by (auto simp: register_def payable_def whenNotPaused_def nonReentrant_def move_wei_def
      Let_def not_entered MAX_NAME_LENGTH_def split: if_splits)

lemma withdraw_valid:
  assumes "withdraw s e target accepts callback = Inr s'"
  shows "status s = NOT_ENTERED"
  using assms
  by (auto simp: withdraw_def onlyOwner_def nonReentrant_def not_entered split: if_splits)

lemma guarded_register:
  "status s = ENTERED \<Longrightarrow> \<not> succeeds s e (Register name dat msg_value accepts calls)"
  by (simp add: succeeds_def register_def payable_def whenNotPaused_def nonReentrant_def
      move_wei_def Let_def)

lemma guarded_withdraw:
  "status s = ENTERED \<Longrightarrow> \<not> succeeds s e (Withdraw target accepts calls)"
  by (simp add: succeeds_def withdraw_def onlyOwner_def nonReentrant_def)



lemma withdraw_succeeds_iff:
  "succeeds s e (Withdraw target accepts calls) \<longleftrightarrow>
     msg_sender e = ownable_owner s \<and> status s = NOT_ENTERED \<and> target \<noteq> 0
   \<and> 0 < balances s (this s) \<and> (accepts \<or> target = this s)"
  by (auto simp: call_defs modifier_defs Let_def not_entered)

text \<open>What one call can have done, by cases.\<close>

lemma step_cases:
  obtains (failed) "\<not> succeeds s e c" "apply_call s e c = s"
    | (updated) name dat where "c = Update name dat"
        "update s e name dat = Inr (apply_call s e c)"
    | (transferred) name newOwner where "c = Transfer name newOwner"
        "transfer s e name newOwner = Inr (apply_call s e c)"
    | (registered) name dat msg_value accepts calls where
        "c = Register name dat msg_value accepts calls"
        "register s e msg_value name dat accepts (\<lambda>s. reenter s e calls)
         = Inr (apply_call s e c)"
        "succeeds s e c"
    | (withdrew) target accepts calls where "c = Withdraw target accepts calls"
        "withdraw s e target accepts (\<lambda>s. reenter s e calls) = Inr (apply_call s e c)"
        "succeeds s e c"
    | (other) "\<forall>name. \<not> registers c name"
        "registry (apply_call s e c) = registry s"
        "ownedNames (apply_call s e c) = ownedNames s"
        "status (apply_call s e c) = status s"
        "this (apply_call s e c) = this s"
proof (cases "succeeds s e c")
  case False
  then show ?thesis by (intro failed) (simp_all add: failed_apply_call)
next
  case True
  note ex = succeeds_execute [OF True]
  show ?thesis
  proof (cases c)
    case (Register name dat msg_value accepts calls)
    with ex True show ?thesis by (intro registered) simp_all
  next
    case (Withdraw target accepts calls)
    with ex True show ?thesis by (intro withdrew) simp_all
  next
    case (Update name dat)
    with ex show ?thesis by (intro updated) simp_all
  next
    case (Transfer name newOwner)
    with ex show ?thesis by (intro transferred) simp_all
  qed (intro other; auto simp: call_defs modifier_defs Let_def)+
qed

text \<open>Inside a refund or payout: the guard stays set, the address is the same.\<close>

lemma guarded_step:
  assumes "status s = ENTERED"
  shows "status (apply_call s e c) = ENTERED" and "this (apply_call s e c) = this s"
proof -
  have "status (apply_call s e c) = ENTERED \<and> this (apply_call s e c) = this s"
  proof (cases rule: step_cases [of s e c])
    case failed
    then show ?thesis using assms by simp
  next
    case (updated name dat)
    from update_effect [OF updated(2)] assms show ?thesis by simp
  next
    case (transferred name newOwner)
    from transfer_effect(1) [OF transferred(2)] assms show ?thesis by simp
  next
    case (registered name dat msg_value accepts calls)
    from register_valid(1) [OF registered(2)] assms show ?thesis by simp
  next
    case (withdrew target accepts calls)
    from withdraw_valid [OF withdrew(2)] assms show ?thesis by simp
  next
    case other
    then show ?thesis using assms by simp
  qed
  then show "status (apply_call s e c) = ENTERED" and "this (apply_call s e c) = this s"
    by simp_all
qed

lemma reenter_guarded:
  "status s = ENTERED \<Longrightarrow>
   status (reenter s e calls) = ENTERED \<and> this (reenter s e calls) = this s"
proof (induction calls arbitrary: s)
  case Nil
  then show ?case by simp
next
  case (Cons step calls)
  obtain sender c where step: "step = (sender, c)" by (cases step)
  from Cons.IH [OF guarded_step(1) [OF Cons.prems, of "e\<lparr>msg_sender := sender\<rparr>" c]]
    guarded_step(2) [OF Cons.prems, of "e\<lparr>msg_sender := sender\<rparr>" c] step
  show ?case by simp
qed

lemma step_this: "this (apply_call s e c) = this s"
proof (cases rule: step_cases [of s e c])
  case failed
  then show ?thesis by simp
next
  case (updated name dat)
  from update_effect [OF updated(2)] show ?thesis by simp
next
  case (transferred name newOwner)
  from transfer_effect(1) [OF transferred(2)] show ?thesis by simp
next
  case (registered name dat msg_value accepts calls)
  from registered(2) obtain t where t: "status t = ENTERED" "this t = this s"
    and "apply_call s e c = t\<lparr>status := NOT_ENTERED\<rparr>
         \<or> apply_call s e c = (reenter t e calls)\<lparr>status := NOT_ENTERED\<rparr>"
    by (rule register_result) blast
  with reenter_guarded [OF t(1), of e calls] show ?thesis by auto
next
  case (withdrew target accepts calls)
  from withdrew(2) obtain t where t: "status t = ENTERED" "this t = this s"
    and "this (apply_call s e c) = this t \<or> this (apply_call s e c) = this (reenter t e calls)"
    by (rule withdraw_result) (auto simp: emit_def)
  with reenter_guarded [OF t(1), of e calls] show ?thesis by auto
next
  case other
  then show ?thesis by simp
qed





text \<open>Timestamps.\<close>

lemma timestamps_ok_mono:
  "timestamps_ok t s \<Longrightarrow> t \<le> t' \<Longrightarrow> timestamps_ok t' s"
  unfolding timestamps_ok_def by (meson order_trans)

lemma timestamps_ok_created:
  "timestamps_ok now s \<Longrightarrow> createdAt (registry s name) \<le> now"
  unfolding timestamps_ok_def by (meson order_trans)

lemma evolves_refl: "timestamps_ok now s \<Longrightarrow> evolves now s s"
  by (simp add: evolves_def)

lemma evolves_trans:
  assumes "evolves before a b" and "evolves now b c"
  shows "evolves now a c"
proof -
  have "(owner (registry a name) \<noteq> 0 \<longrightarrow>
           owner (registry c name) \<noteq> 0
         \<and> createdAt (registry c name) = createdAt (registry a name))
       \<and> updatedAt (registry a name) \<le> updatedAt (registry c name)" for name
  proof -
    from assms(1) have ab: "owner (registry a name) \<noteq> 0 \<longrightarrow>
           owner (registry b name) \<noteq> 0
         \<and> createdAt (registry b name) = createdAt (registry a name)"
        "updatedAt (registry a name) \<le> updatedAt (registry b name)"
      by (simp_all add: evolves_def)
    from assms(2) have bc: "owner (registry b name) \<noteq> 0 \<longrightarrow>
           owner (registry c name) \<noteq> 0
         \<and> createdAt (registry c name) = createdAt (registry b name)"
        "updatedAt (registry b name) \<le> updatedAt (registry c name)"
      by (simp_all add: evolves_def)
    from ab bc show ?thesis by auto
  qed
  moreover from assms(2) have "timestamps_ok now c" by (simp add: evolves_def)
  ultimately show ?thesis by (simp add: evolves_def)
qed

lemma evolves_registry:
  "registry s' = registry s'' \<Longrightarrow> evolves now s s'' \<Longrightarrow> evolves now s s'"
  by (simp add: evolves_def timestamps_ok_def)

lemma evolves_write:
  assumes "timestamps_ok now s"
    and "registry s' = (registry s)(name := r)"
    and "createdAt r \<le> updatedAt r" and "updatedAt r = now"
    and "owner (registry s name) \<noteq> 0 \<longrightarrow>
           owner r \<noteq> 0 \<and> createdAt r = createdAt (registry s name)"
  shows "evolves now s s'"
  using assms by (auto simp: evolves_def timestamps_ok_def)

lemma evolves_update:
  assumes "timestamps_ok (block_timestamp e) s" and "update s e name dat = Inr s'"
  shows "evolves (block_timestamp e) s s'"
proof -
  from update_effect [OF assms(2)]
  have "registry s' = (registry s)(name :=
          (registry s name)\<lparr>data := dat, updatedAt := block_timestamp e\<rparr>)"
    by simp
  from evolves_write [OF assms(1) this] timestamps_ok_created [OF assms(1)]
  show ?thesis by simp
qed

lemma evolves_transfer:
  assumes "timestamps_ok (block_timestamp e) s" and "transfer s e name newOwner = Inr s'"
  shows "evolves (block_timestamp e) s s'"
proof -
  from transfer_effect(1) [OF assms(2)]
  have "registry s' = (registry s)(name :=
          (registry s name)\<lparr>owner := newOwner, updatedAt := block_timestamp e\<rparr>)"
    by simp
  from evolves_write [OF assms(1) this] timestamps_ok_created [OF assms(1)]
    transfer_effect(2) [OF assms(2)]
  show ?thesis by simp
qed

lemma guarded_evolves:
  assumes "status s = ENTERED" and "timestamps_ok (block_timestamp e) s"
  shows "evolves (block_timestamp e) s (apply_call s e c)"
proof (cases rule: step_cases [of s e c])
  case failed
  then show ?thesis using assms(2) by (simp add: evolves_refl)
next
  case (updated n dat)
  from evolves_update [OF assms(2) updated(2)] show ?thesis .
next
  case (transferred n newOwner)
  from evolves_transfer [OF assms(2) transferred(2)] show ?thesis .
next
  case (registered n dat msg_value accepts calls)
  from register_valid(1) [OF registered(2)] assms(1) show ?thesis by simp
next
  case (withdrew target accepts calls)
  from withdraw_valid [OF withdrew(2)] assms(1) show ?thesis by simp
next
  case other
  from evolves_registry [OF other(2) evolves_refl [OF assms(2)]]
  show ?thesis .
qed

lemma reenter_evolves:
  "status s = ENTERED \<Longrightarrow> timestamps_ok (block_timestamp e) s \<Longrightarrow>
   evolves (block_timestamp e) s (reenter s e calls)"
proof (induction calls arbitrary: s)
  case Nil
  then show ?case by (simp add: evolves_refl)
next
  case (Cons step calls)
  obtain sender c where step: "step = (sender, c)" by (cases step)
  let ?e = "e\<lparr>msg_sender := sender\<rparr>"
  from Cons.prems(2) have "timestamps_ok (block_timestamp ?e) s" by simp
  from guarded_evolves [OF Cons.prems(1) this, of c]
  have one: "evolves (block_timestamp e) s (apply_call s ?e c)" by simp
  then have "timestamps_ok (block_timestamp e) (apply_call s ?e c)"
    by (simp add: evolves_def)
  from Cons.IH [OF guarded_step(1) [OF Cons.prems(1)] this]
  have "evolves (block_timestamp e) (apply_call s ?e c) (reenter (apply_call s ?e c) e calls)" .
  from evolves_trans [OF one this] step show ?case by simp
qed

lemma step_evolves:
  assumes "timestamps_ok (block_timestamp e) s"
  shows "evolves (block_timestamp e) s (apply_call s e c)"
proof (cases rule: step_cases [of s e c])
  case failed
  then show ?thesis using assms by (simp add: evolves_refl)
next
  case (updated n dat)
  from evolves_update [OF assms updated(2)] show ?thesis .
next
  case (transferred n newOwner)
  from evolves_transfer [OF assms transferred(2)] show ?thesis .
next
  case (registered n dat msg_value accepts calls)
  from registered(2) obtain t where t: "status t = ENTERED"
      "registry t = (registry s)(n := \<lparr>owner = msg_sender e, data = dat,
          createdAt = block_timestamp e, updatedAt = block_timestamp e\<rparr>)"
    and fin: "apply_call s e c = t\<lparr>status := NOT_ENTERED\<rparr>
       \<or> apply_call s e c = (reenter t e calls)\<lparr>status := NOT_ENTERED\<rparr>"
    by (rule register_result) blast
  from evolves_write [OF assms t(2)] register_valid(2) [OF registered(2)]
  have one: "evolves (block_timestamp e) s t" by simp
  then have "timestamps_ok (block_timestamp e) t" by (simp add: evolves_def)
  from evolves_trans [OF one reenter_evolves [OF t(1) this]]
  have two: "evolves (block_timestamp e) s (reenter t e calls)" .
  from fin have "registry (apply_call s e c) = registry t
      \<or> registry (apply_call s e c) = registry (reenter t e calls)"
    by auto
  with one two show ?thesis by (auto intro: evolves_registry)
next
  case (withdrew target accepts calls)
  from withdrew(2) obtain t where t: "status t = ENTERED" "registry t = registry s"
    and fin: "registry (apply_call s e c) = registry t
       \<or> registry (apply_call s e c) = registry (reenter t e calls)"
    by (rule withdraw_result) (auto simp: emit_def)
  from evolves_registry [OF t(2) evolves_refl [OF assms]]
  have one: "evolves (block_timestamp e) s t" .
  then have "timestamps_ok (block_timestamp e) t" by (simp add: evolves_def)
  from evolves_trans [OF one reenter_evolves [OF t(1) this]]
  have two: "evolves (block_timestamp e) s (reenter t e calls)" .
  from fin one two show ?thesis by (auto intro: evolves_registry)
next
  case other
  from evolves_registry [OF other(2) evolves_refl [OF assms]]
  show ?thesis .
qed

text \<open>Balances.\<close>

lemma guarded_balances:
  assumes "status s = ENTERED" and "\<not> is_deposit c"
  shows "balances (apply_call s e c) = balances s"
proof (cases "succeeds s e c")
  case False
  then show ?thesis by (simp add: failed_apply_call)
next
  case True
  with assms guarded_register guarded_withdraw show ?thesis
    by (cases c) (auto simp: call_defs modifier_defs Let_def split: if_splits)
qed

lemma reenter_balances:
  "status s = ENTERED \<Longrightarrow> list_all (\<lambda>(sender, inner). \<not> is_deposit inner) calls \<Longrightarrow>
   balances (reenter s e calls) = balances s"
proof (induction calls arbitrary: s)
  case Nil
  then show ?case by simp
next
  case (Cons step calls)
  obtain sender c where step: "step = (sender, c)" by (cases step)
  from Cons.prems(2) step have nd: "\<not> is_deposit c"
    and rest: "list_all (\<lambda>(sender, inner). \<not> is_deposit inner) calls"
    by simp_all
  from Cons.IH [OF guarded_step(1) [OF Cons.prems(1)] rest]
    guarded_balances [OF Cons.prems(1) nd] step
  show ?case by simp
qed


lemma withdraw_balance:
  assumes "withdraw s e target a (\<lambda>s. reenter s e calls) = Inr s'"
    and "list_all (\<lambda>(sender, inner). \<not> is_deposit inner) calls"
  shows "target \<noteq> this s \<longrightarrow>
           balances s' = (balances s)(this s := 0,
             target := balances s target + balances s (this s))"
    and "target = this s \<longrightarrow> balances s' = balances s"
proof -
  from assms(1) obtain t where t: "status t = ENTERED"
    and same: "target = this s \<longrightarrow> balances t = balances s"
    and moved: "target \<noteq> this s \<longrightarrow>
           balances t = (balances s)(this s := 0,
             target := balances s target + balances s (this s))"
    and fin: "balances s' = balances t \<or> balances s' = balances (reenter t e calls)"
    by (rule withdraw_result) (auto simp: emit_def)
  from fin reenter_balances [OF t assms(2), of e] have "balances s' = balances t" by auto
  with same moved
  show "target \<noteq> this s \<longrightarrow>
           balances s' = (balances s)(this s := 0,
             target := balances s target + balances s (this s))"
    and "target = this s \<longrightarrow> balances s' = balances s"
    by simp_all
qed




section \<open>Effects of histories\<close>


lemma run_this: "this (run s steps) = this s"
  by (induction steps arbitrary: s) (auto simp: step_this)




lemma run_evolves:
  "timestamps_ok t s \<Longrightarrow> sorted (t # map (\<lambda>step. block_timestamp (fst step)) steps) \<Longrightarrow>
   evolves (last (t # map (\<lambda>step. block_timestamp (fst step)) steps)) s (run s steps)"
proof (induction steps arbitrary: s t)
  case Nil
  then show ?case by (simp add: evolves_refl)
next
  case (Cons step steps)
  obtain e c where step: "step = (e, c)" by (cases step)
  let ?last = "last (block_timestamp e # map (\<lambda>step. block_timestamp (fst step)) steps)"
  from Cons.prems(2) step have le: "t \<le> block_timestamp e"
    and rest: "sorted (block_timestamp e # map (\<lambda>step. block_timestamp (fst step)) steps)"
    by simp_all
  from step_evolves [OF timestamps_ok_mono [OF Cons.prems(1) le], of c]
  have one: "evolves (block_timestamp e) s (apply_call s e c)" .
  then have ok: "timestamps_ok (block_timestamp e) (apply_call s e c)"
    by (simp add: evolves_def)
  from Cons.IH [OF ok rest]
  have two: "evolves ?last (apply_call s e c) (run (apply_call s e c) steps)" .
  from evolves_trans [OF one two] step show ?case by simp
qed




section \<open>Registration\<close>

text \<open>
  C1, as the code has it. Take a call \<open>register(name, data)\<close> that meets every
  precondition (name of 1 to 32 bytes, data of at most 256 bytes, name unregistered,
  payment of at least the fee, registry not paused), made by an account other than the
  registry that holds the payment, and not made from inside a refund or payout of the
  registry. It succeeds whenever the payment equals the fee or the refund is accepted.
  When the payment equals the fee, or the refund is accepted by a recipient that makes no
  call into the registry while it is paid, then after the call the record of the name is
  \<open>{caller, data, now, now}\<close>, the name is appended to the caller's owned names, the
  registry's balance has grown by exactly the fee, and the caller has the payment less
  the fee back. When the payment exceeds the fee and the refund is refused, the call
  reverts with "Refund failed" and the state is the one before the call.
\<close>

theorem register_success:
  assumes "length name > 0" and "length name \<le> 32" and "length dat \<le> 256"
    and "owner (registry s name) = 0"
    and "registrationFee s \<le> msg_value"
    and "\<not> paused s"
    and "status s = NOT_ENTERED"
    and "msg_value \<le> balances s (msg_sender e)"
    and "msg_sender e \<noteq> this s"
    and "c = Register name dat msg_value accepts calls"
    and "s' = apply_call s e c"
  shows "((msg_value = registrationFee s \<or> accepts) \<longrightarrow> succeeds s e c)
       \<and> ((msg_value = registrationFee s \<or> (accepts \<and> calls = [])) \<longrightarrow>
             registry s' name = \<lparr>owner = msg_sender e, data = dat,
                 createdAt = block_timestamp e, updatedAt = block_timestamp e\<rparr>
           \<and> ownedNames s' (msg_sender e) = ownedNames s (msg_sender e) @ [name]
           \<and> balances s' (this s') = balances s (this s) + registrationFee s
           \<and> balances s' (msg_sender e)
               = balances s (msg_sender e) - msg_value + (msg_value - registrationFee s))
       \<and> ((registrationFee s < msg_value \<and> \<not> accepts) \<longrightarrow>
             execute s e c = Inl (Revert ''Refund failed'') \<and> s' = s)"
  using assms
  by (auto simp: call_defs modifier_defs Let_def)

theorem register_success_witness:
  "succeeds genesis (at 2 7) (Register ''alice'' ''hello'' 1500 True [])
   \<and> registry (apply_call genesis (at 2 7) (Register ''alice'' ''hello'' 1500 True [])) ''alice''
       = \<lparr>owner = 2, data = ''hello'', createdAt = 7, updatedAt = 7\<rparr>
   \<and> ownedNames (apply_call genesis (at 2 7) (Register ''alice'' ''hello'' 1500 True [])) 2
       = [''alice'']
   \<and> balances (apply_call genesis (at 2 7) (Register ''alice'' ''hello'' 1500 True [])) 100 = 1000
   \<and> balances (apply_call genesis (at 2 7) (Register ''alice'' ''hello'' 1500 True [])) 2 = 4000
   \<and> execute genesis (at 2 7) (Register ''alice'' ''hello'' 1500 False [])
       = Inl (Revert ''Refund failed'')
   \<and> apply_call genesis (at 2 7) (Register ''alice'' ''hello'' 1500 False []) = genesis"
  using register_success [where name = "''alice''" and dat = "''hello''" and s = genesis
      and msg_value = 1500 and e = "at 2 7" and accepts = True and calls = "[]",
      OF _ _ _ _ _ _ _ _ _ refl refl]
    register_success [where name = "''alice''" and dat = "''hello''" and s = genesis
      and msg_value = 1500 and e = "at 2 7" and accepts = False and calls = "[]",
      OF _ _ _ _ _ _ _ _ _ refl refl]
  by (simp add: example_defs call_defs modifier_defs Let_def)

text \<open>
  C1 as the specification words it fails twice. The caller's code, run by the refund,
  transfers the new name to account 3 before \<open>register\<close> returns: the owner is 3, not the
  caller. And a registration that meets the five preconditions but is made from inside a
  refund or payout is refused by the guard: account 3, called by the code that a refund
  runs, registers a free name with the fee attached, and the name is still free
  afterwards.
\<close>

theorem register_success_counterexample:
  "succeeds genesis (at 2 7) (Register ''alice'' ''hello'' 1500 True [(2, Transfer ''alice'' 3)])
   \<and> owner (registry (apply_call genesis (at 2 7)
        (Register ''alice'' ''hello'' 1500 True [(2, Transfer ''alice'' 3)])) ''alice'') = 3
   \<and> \<not> paused alice_entered
   \<and> owner (registry alice_entered ''bob'') = 0
   \<and> registrationFee alice_entered \<le> 1000
   \<and> 1000 \<le> balances alice_entered 3
   \<and> execute alice_entered (at 3 9) (Register ''bob'' ''hi'' 1000 True [])
       = Inl ReentrancyGuardReentrantCall
   \<and> owner (registry (apply_call genesis (at 2 7)
        (Register ''alice'' ''hello'' 1500 True [(3, Register ''bob'' ''hi'' 1000 True [])]))
        ''bob'') = 0"
  by (simp add: example_defs call_defs modifier_defs Let_def)

text \<open>
  C2, as the code has it. For a call \<open>register(name, data)\<close> by a sender that holds the
  payment, the checks run in this order and the first one that fails is the one
  reported: registry not paused, call not made from inside a refund or payout of the
  registry, name not empty, name of at most 32 bytes, data of at most 256 bytes, name not
  registered, payment of at least the fee. A call that fails leaves the state as it was.
\<close>

theorem register_check_order:
  assumes "msg_value \<le> balances s (msg_sender e)"
    and "c = Register name dat msg_value accepts calls"
  shows "(paused s \<longrightarrow> execute s e c = Inl EnforcedPause)
       \<and> (\<not> paused s \<and> status s = ENTERED \<longrightarrow>
            execute s e c = Inl ReentrancyGuardReentrantCall)
       \<and> (\<not> paused s \<and> status s = NOT_ENTERED \<and> length name = 0 \<longrightarrow>
            execute s e c = Inl (Revert ''Name cannot be empty''))
       \<and> (\<not> paused s \<and> status s = NOT_ENTERED \<and> 0 < length name \<and> 32 < length name \<longrightarrow>
            execute s e c = Inl (Revert ''Name too long''))
       \<and> (\<not> paused s \<and> status s = NOT_ENTERED \<and> 0 < length name \<and> length name \<le> 32
            \<and> 256 < length dat \<longrightarrow>
            execute s e c = Inl (Revert ''Data too long''))
       \<and> (\<not> paused s \<and> status s = NOT_ENTERED \<and> 0 < length name \<and> length name \<le> 32
            \<and> length dat \<le> 256 \<and> owner (registry s name) \<noteq> 0 \<longrightarrow>
            execute s e c = Inl (Revert ''Name already registered''))
       \<and> (\<not> paused s \<and> status s = NOT_ENTERED \<and> 0 < length name \<and> length name \<le> 32
            \<and> length dat \<le> 256 \<and> owner (registry s name) = 0
            \<and> msg_value < registrationFee s \<longrightarrow>
            execute s e c = Inl (Revert ''Insufficient fee''))
       \<and> (\<not> succeeds s e c \<longrightarrow> apply_call s e c = s)"
  using assms
  by (auto simp: call_defs modifier_defs Let_def split: sum.splits)

theorem register_check_order_witness:
  "execute genesis_paused (at 2 7) (Register [] ''hello'' 1000 True []) = Inl EnforcedPause
   \<and> execute alice_entered (at 2 7) (Register [] ''hello'' 1000 True [])
        = Inl ReentrancyGuardReentrantCall
   \<and> execute genesis (at 2 7) (Register [] (replicate 257 CHR ''a'') 0 True [])
        = Inl (Revert ''Name cannot be empty'')
   \<and> execute genesis (at 2 7) (Register (replicate 33 CHR ''n'') (replicate 257 CHR ''a'') 0 True [])
        = Inl (Revert ''Name too long'')
   \<and> execute alice_registered (at 3 8) (Register ''alice'' (replicate 257 CHR ''a'') 10 True [])
        = Inl (Revert ''Data too long'')
   \<and> execute alice_registered (at 3 8) (Register ''alice'' ''hi'' 10 True [])
        = Inl (Revert ''Name already registered'')
   \<and> execute genesis (at 2 7) (Register ''bob'' ''hi'' 999 True [])
        = Inl (Revert ''Insufficient fee'')
   \<and> apply_call genesis (at 2 7) (Register ''bob'' ''hi'' 999 True []) = genesis"
  using register_check_order [where s = genesis_paused and e = "at 2 7" and msg_value = 1000
      and name = "[]" and dat = "''hello''" and accepts = True and calls = "[]", OF _ refl]
    register_check_order [where s = alice_entered and e = "at 2 7" and msg_value = 1000
      and name = "[]" and dat = "''hello''" and accepts = True and calls = "[]", OF _ refl]
    register_check_order [where s = genesis and e = "at 2 7" and msg_value = 0
      and name = "[]" and dat = "replicate 257 CHR ''a''" and accepts = True and calls = "[]",
      OF _ refl]
    register_check_order [where s = genesis and e = "at 2 7" and msg_value = 0
      and name = "replicate 33 CHR ''n''" and dat = "replicate 257 CHR ''a''"
      and accepts = True and calls = "[]", OF _ refl]
    register_check_order [where s = alice_registered and e = "at 3 8" and msg_value = 10
      and name = "''alice''" and dat = "replicate 257 CHR ''a''" and accepts = True
      and calls = "[]", OF _ refl]
    register_check_order [where s = alice_registered and e = "at 3 8" and msg_value = 10
      and name = "''alice''" and dat = "''hi''" and accepts = True and calls = "[]", OF _ refl]
    register_check_order [where s = genesis and e = "at 2 7" and msg_value = 999
      and name = "''bob''" and dat = "''hi''" and accepts = True and calls = "[]", OF _ refl]
  by (simp add: example_defs call_defs modifier_defs Let_def)

text \<open>
  C2 as the specification words it fails: with the registry paused, a registration of
  the empty name is refused for the pause, not for the name; and from inside a refund or
  payout it is refused by the guard, which the specification does not list.
\<close>

theorem register_check_order_counterexample:
  "paused genesis_paused
   \<and> execute genesis_paused (at 2 7) (Register [] ''hello'' 1000 True []) = Inl EnforcedPause
   \<and> execute genesis_paused (at 2 7) (Register [] ''hello'' 1000 True [])
        \<noteq> Inl (Revert ''Name cannot be empty'')
   \<and> \<not> paused alice_entered
   \<and> execute alice_entered (at 2 7) (Register [] ''hello'' 1000 True [])
        = Inl ReentrancyGuardReentrantCall"
  by (simp add: example_defs call_defs modifier_defs Let_def)

section \<open>Update and transfer\<close>

text \<open>
  C4, as the code has it. For a registered name and a caller that is not the owner of its
  record, \<open>update\<close> and \<open>transfer\<close> fail and leave the state as it was; the failure is
  "Not the owner" when the registry is not paused and the pause error when it is.
\<close>

theorem ownership_gating:
  assumes "owner (registry s name) \<noteq> 0"
    and "msg_sender e \<noteq> owner (registry s name)"
  shows "(\<not> paused s \<longrightarrow>
            execute s e (Update name dat) = Inl (Revert ''Not the owner'')
          \<and> execute s e (Transfer name newOwner) = Inl (Revert ''Not the owner''))
       \<and> (paused s \<longrightarrow>
            execute s e (Update name dat) = Inl EnforcedPause
          \<and> execute s e (Transfer name newOwner) = Inl EnforcedPause)
       \<and> apply_call s e (Update name dat) = s
       \<and> apply_call s e (Transfer name newOwner) = s"
  using assms
  by (auto simp: call_defs modifier_defs Let_def)

theorem ownership_gating_witness:
  "execute alice_registered (at 3 9) (Update ''alice'' ''mine'') = Inl (Revert ''Not the owner'')
   \<and> execute alice_registered (at 3 9) (Transfer ''alice'' 3) = Inl (Revert ''Not the owner'')
   \<and> execute alice_paused (at 3 9) (Transfer ''alice'' 3) = Inl EnforcedPause
   \<and> apply_call alice_registered (at 3 9) (Transfer ''alice'' 3) = alice_registered"
  using ownership_gating [where s = alice_registered and e = "at 3 9" and name = "''alice''"
      and dat = "''mine''" and newOwner = 3]
    ownership_gating [where s = alice_paused and e = "at 3 9" and name = "''alice''"
      and dat = "''mine''" and newOwner = 3]
  by (simp add: example_defs call_defs modifier_defs Let_def)

text \<open>
  C4 as the specification words it fails: on a paused registry the update of a stranger
  is refused for the pause, which is not the authorization error.
\<close>

theorem ownership_gating_counterexample:
  "owner (registry alice_paused ''alice'') = 2
   \<and> execute alice_paused (at 3 9) (Update ''alice'' ''mine'') = Inl EnforcedPause
   \<and> execute alice_paused (at 3 9) (Update ''alice'' ''mine'') \<noteq> Inl (Revert ''Not the owner'')"
  by (simp add: example_defs call_defs modifier_defs Let_def)

text \<open>
  C7. A call \<open>transfer(name, newOwner)\<close> by a sender (never the zero address) succeeds
  exactly when the record of the name exists with the caller as owner, \<open>newOwner\<close> is
  not the zero address, \<open>newOwner\<close> is not the caller and the registry is not paused. On
  success the owner of the record is \<open>newOwner\<close>, \<open>updatedAt\<close> is the time of the call,
  the name is appended to the owned names of \<open>newOwner\<close>, and the owned names of every
  other account, the previous owner among them, are as before.
\<close>

theorem transfer_exact:
  assumes "msg_sender e \<noteq> 0"
    and "c = Transfer name newOwner"
    and "s' = apply_call s e c"
  shows "(succeeds s e c \<longleftrightarrow>
            owner (registry s name) \<noteq> 0 \<and> owner (registry s name) = msg_sender e
          \<and> newOwner \<noteq> 0 \<and> newOwner \<noteq> msg_sender e \<and> \<not> paused s)
       \<and> (succeeds s e c \<longrightarrow>
            owner (registry s' name) = newOwner
          \<and> updatedAt (registry s' name) = block_timestamp e
          \<and> ownedNames s' newOwner = ownedNames s newOwner @ [name]
          \<and> ownedNames s' (msg_sender e) = ownedNames s (msg_sender e)
          \<and> (account \<noteq> newOwner \<longrightarrow> ownedNames s' account = ownedNames s account))"
  using assms
  by (auto simp: call_defs modifier_defs Let_def)

theorem transfer_exact_witness:
  "succeeds alice_registered (at 2 9) (Transfer ''alice'' 3)
   \<and> owner (registry (apply_call alice_registered (at 2 9) (Transfer ''alice'' 3)) ''alice'') = 3
   \<and> updatedAt (registry (apply_call alice_registered (at 2 9) (Transfer ''alice'' 3)) ''alice'') = 9
   \<and> ownedNames (apply_call alice_registered (at 2 9) (Transfer ''alice'' 3)) 3 = [''alice'']
   \<and> ownedNames (apply_call alice_registered (at 2 9) (Transfer ''alice'' 3)) 2 = [''alice'']
   \<and> \<not> succeeds alice_registered (at 2 9) (Transfer ''alice'' 2)"
  using transfer_exact [where s = alice_registered and e = "at 2 9" and name = "''alice''"
      and newOwner = 3 and account = 2, OF _ refl refl]
    transfer_exact [where s = alice_registered and e = "at 2 9" and name = "''alice''"
      and newOwner = 2 and account = 2, OF _ refl refl]
  by (simp add: example_defs call_defs modifier_defs Let_def)

text \<open>
  C10, as the code has it. A successful \<open>update\<close> or \<open>transfer\<close> on a name, and a
  successful \<open>register\<close> of it that pays exactly the fee or whose refund goes to a
  recipient that makes no call into the registry while it is paid, leaves the record of
  every other name as it was, leaves the owned names of every account but the one it
  appends to (the caller for \<open>register\<close>, the new owner for \<open>transfer\<close>, none for
  \<open>update\<close>) as they were, and leaves the fee, the pause flag and the admin as they were;
  \<open>update\<close> keeps the owner and \<open>createdAt\<close> of the record, \<open>transfer\<close> keeps its data
  and \<open>createdAt\<close>.
\<close>

theorem mutation_frame:
  assumes "(c = Register name dat msg_value accepts calls
            \<and> (msg_value = registrationFee s \<or> calls = []))
           \<or> c = Update name dat \<or> c = Transfer name newOwner"
    and "succeeds s e c"
    and "s' = apply_call s e c"
  shows "(other \<noteq> name \<longrightarrow> registry s' other = registry s other)
       \<and> (c = Register name dat msg_value accepts calls \<and> account \<noteq> msg_sender e \<longrightarrow>
            ownedNames s' account = ownedNames s account)
       \<and> (c = Transfer name newOwner \<and> account \<noteq> newOwner \<longrightarrow>
            ownedNames s' account = ownedNames s account)
       \<and> (c = Update name dat \<longrightarrow> ownedNames s' account = ownedNames s account)
       \<and> registrationFee s' = registrationFee s
       \<and> paused s' = paused s
       \<and> ownable_owner s' = ownable_owner s
       \<and> (c = Update name dat \<longrightarrow>
            owner (registry s' name) = owner (registry s name)
          \<and> createdAt (registry s' name) = createdAt (registry s name))
       \<and> (c = Transfer name newOwner \<longrightarrow>
            data (registry s' name) = data (registry s name)
          \<and> createdAt (registry s' name) = createdAt (registry s name))"
proof -
  have ex: "execute s e c = Inr s'"
    using assms(2,3) by (simp add: succeeds_execute)
  from assms(1) consider
      (reg) "c = Register name dat msg_value accepts calls"
          "msg_value = registrationFee s \<or> calls = []"
    | (upd) "c = Update name dat"
    | (tra) "c = Transfer name newOwner"
    by blast
  then show ?thesis
  proof cases
    case reg
    with ex have "register s e msg_value name dat accepts (\<lambda>s. reenter s e calls) = Inr s'"
      by simp
    then obtain t where "registry t = (registry s)(name := \<lparr>owner = msg_sender e, data = dat,
            createdAt = block_timestamp e, updatedAt = block_timestamp e\<rparr>)"
      and "ownedNames t = (ownedNames s)(msg_sender e := ownedNames s (msg_sender e) @ [name])"
      and "registrationFee t = registrationFee s"
      and "paused t = paused s"
      and "ownable_owner t = ownable_owner s"
      and "s' = t\<lparr>status := NOT_ENTERED\<rparr>
         \<or> (registrationFee s < msg_value \<and> s' = (reenter t e calls)\<lparr>status := NOT_ENTERED\<rparr>)"
      by (rule register_result) blast
    with reg show ?thesis by auto
  next
    case upd
    with ex have "update s e name dat = Inr s'" by simp
    from update_effect [OF this] upd show ?thesis by simp
  next
    case tra
    with ex have "transfer s e name newOwner = Inr s'" by simp
    from transfer_effect(1) [OF this] tra show ?thesis by simp
  qed
qed

theorem mutation_frame_witness:
  "succeeds alice_registered (at 3 9) (Register ''bob'' ''hi'' 1200 True [])
   \<and> registry (apply_call alice_registered (at 3 9) (Register ''bob'' ''hi'' 1200 True [])) ''alice''
       = registry alice_registered ''alice''
   \<and> registrationFee (apply_call alice_registered (at 3 9) (Register ''bob'' ''hi'' 1200 True []))
       = registrationFee alice_registered
   \<and> succeeds alice_registered (at 2 9) (Update ''alice'' ''new'')
   \<and> owner (registry (apply_call alice_registered (at 2 9) (Update ''alice'' ''new'')) ''alice'')
       = owner (registry alice_registered ''alice'')
   \<and> succeeds alice_registered (at 2 9) (Transfer ''alice'' 3)
   \<and> data (registry (apply_call alice_registered (at 2 9) (Transfer ''alice'' 3)) ''alice'')
       = data (registry alice_registered ''alice'')
   \<and> ownedNames (apply_call alice_registered (at 2 9) (Transfer ''alice'' 3)) 2
       = ownedNames alice_registered 2"
proof -
  have ok: "succeeds alice_registered (at 3 9) (Register ''bob'' ''hi'' 1200 True [])"
      "succeeds alice_registered (at 2 9) (Update ''alice'' ''new'')"
      "succeeds alice_registered (at 2 9) (Transfer ''alice'' 3)"
    by (simp_all add: example_defs call_defs modifier_defs Let_def)
  have ne: "''alice'' \<noteq> ''bob''" "(2::address) \<noteq> 3" by simp_all
  from mutation_frame [where c = "Register ''bob'' ''hi'' 1200 True []" and name = "''bob''"
      and dat = "''hi''" and msg_value = 1200 and accepts = True and calls = "[]"
      and newOwner = 3 and other = "''alice''" and account = 2, OF _ ok(1) refl] ne
  have one: "registry (apply_call alice_registered (at 3 9) (Register ''bob'' ''hi'' 1200 True []))
        ''alice'' = registry alice_registered ''alice''
     \<and> registrationFee (apply_call alice_registered (at 3 9) (Register ''bob'' ''hi'' 1200 True []))
        = registrationFee alice_registered"
    by simp
  from mutation_frame [where c = "Update ''alice'' ''new''" and name = "''alice''"
      and dat = "''new''" and msg_value = 1000 and accepts = True and calls = "[]"
      and newOwner = 3 and other = "''bob''" and account = 2, OF _ ok(2) refl]
  have two: "owner (registry (apply_call alice_registered (at 2 9) (Update ''alice'' ''new''))
        ''alice'') = owner (registry alice_registered ''alice'')"
    by simp
  from mutation_frame [where c = "Transfer ''alice'' 3" and name = "''alice''"
      and dat = "''new''" and msg_value = 1000 and accepts = True and calls = "[]"
      and newOwner = 3 and other = "''bob''" and account = 2, OF _ ok(3) refl] ne
  have three: "data (registry (apply_call alice_registered (at 2 9) (Transfer ''alice'' 3))
        ''alice'') = data (registry alice_registered ''alice'')
     \<and> ownedNames (apply_call alice_registered (at 2 9) (Transfer ''alice'' 3)) 2
        = ownedNames alice_registered 2"
    by simp
  from ok one two three show ?thesis by simp
qed

text \<open>
  C10 as the specification words it fails: the caller's code, run by the refund,
  transfers the new name to account 3, so a successful \<open>register\<close> by account 2 has
  changed the owned names of account 3.
\<close>

theorem mutation_frame_counterexample:
  "succeeds genesis (at 2 7) (Register ''alice'' ''hello'' 1500 True [(2, Transfer ''alice'' 3)])
   \<and> (3::address) \<noteq> msg_sender (at 2 7)
   \<and> ownedNames genesis 3 = []
   \<and> ownedNames (apply_call genesis (at 2 7)
        (Register ''alice'' ''hello'' 1500 True [(2, Transfer ''alice'' 3)])) 3
       = [''alice'']"
  by (simp add: example_defs call_defs modifier_defs Let_def)

section \<open>Uniqueness and timestamps\<close>




text \<open>
  C5. Take a registry fresh from its constructor and a history of calls whose block
  timestamps never decrease; let \<open>s\<close> be the state at any point of it and \<open>s'\<close> the
  state at any later point. For every name, \<open>createdAt\<close> is at most \<open>updatedAt\<close> in
  both states; if the record exists in \<open>s\<close> then its \<open>createdAt\<close> in \<open>s'\<close> is the one it
  has in \<open>s\<close>; and \<open>updatedAt\<close> in \<open>s'\<close> is at least what it is in \<open>s\<close>.
\<close>

theorem monotonic_timestamps:
  assumes "constructor self ledger deployer initialFee = Inr s0"
    and "sorted (map (\<lambda>step. block_timestamp (fst step)) (steps @ later))"
    and "s = run s0 steps"
    and "s' = run s later"
  shows "createdAt (registry s name) \<le> updatedAt (registry s name)
       \<and> createdAt (registry s' name) \<le> updatedAt (registry s' name)
       \<and> (owner (registry s name) \<noteq> 0 \<longrightarrow>
            createdAt (registry s' name) = createdAt (registry s name))
       \<and> updatedAt (registry s name) \<le> updatedAt (registry s' name)"
proof -
  let ?times = "map (\<lambda>step. block_timestamp (fst step)) steps"
  let ?later = "map (\<lambda>step. block_timestamp (fst step)) later"
  have init: "timestamps_ok 0 s0"
    using constructor_effect(1) [OF assms(1)] by (simp add: timestamps_ok_def empty_record_def)
  from assms(2) have srt: "sorted (0 # ?times)"
    and all: "\<forall>x \<in> set (0 # ?times). \<forall>y \<in> set ?later. x \<le> y"
    and srt2: "sorted ?later"
    by (auto simp: sorted_append)
  define t where "t = last (0 # ?times)"
  have "t \<in> set (0 # ?times)"
    unfolding t_def by (rule last_in_set) simp
  with all have "\<forall>y \<in> set ?later. t \<le> y" by blast
  with srt2 have srt3: "sorted (t # ?later)" by simp
  from run_evolves [OF init srt]
  have "evolves t s0 s" by (simp only: t_def assms(3))
  then have inv: "timestamps_ok t s" by (simp add: evolves_def)
  from run_evolves [OF inv srt3]
  have "evolves (last (t # ?later)) s s'" by (simp only: assms(4))
  with inv show ?thesis by (simp add: evolves_def timestamps_ok_def)
qed

theorem monotonic_timestamps_witness:
  "createdAt (registry alice_registered ''alice'') = 7
   \<and> createdAt (registry (run alice_registered
        [(at 2 9, Update ''alice'' ''new''), (at 2 9, Transfer ''alice'' 3)]) ''alice'') = 7
   \<and> updatedAt (registry alice_registered ''alice'')
       \<le> updatedAt (registry (run alice_registered
        [(at 2 9, Update ''alice'' ''new''), (at 2 9, Transfer ''alice'' 3)]) ''alice'')"
proof -
  have srt: "sorted (map (\<lambda>step. block_timestamp (fst step))
               ([(at 2 7, Register ''alice'' ''hello'' 1000 True [])]
                @ [(at 2 9, Update ''alice'' ''new''), (at 2 9, Transfer ''alice'' 3)]))"
    by (simp add: at_def)
  have run: "alice_registered = run genesis [(at 2 7, Register ''alice'' ''hello'' 1000 True [])]"
    by (simp add: alice_registered_def)
  have own: "owner (registry alice_registered ''alice'') \<noteq> 0"
      "createdAt (registry alice_registered ''alice'') = 7"
    by (simp_all add: example_defs call_defs modifier_defs Let_def)
  from monotonic_timestamps [OF genesis_constructed srt run refl, where name = "''alice''"] own
  show ?thesis by simp
qed

section \<open>Pause and administration\<close>

text \<open>
  C6, as the code has it. On a paused registry every \<open>register\<close>, \<open>update\<close> and
  \<open>transfer\<close> fails and leaves the state as it was; the four queries answer as they did
  before the call to \<open>pause\<close> that paused it; and for the admin \<open>setRegistrationFee\<close>
  and \<open>unpause\<close> succeed, \<open>withdraw\<close> succeeds under its own conditions, while
  \<open>pause\<close> itself is refused because the registry is paused already.
\<close>

theorem pause_gating:
  assumes "paused s"
  shows "(execute s e (Register name dat msg_value accepts calls) = Inl EnforcedPause
          \<or> execute s e (Register name dat msg_value accepts calls) = Inl InsufficientBalance)
       \<and> execute s e (Update name dat) = Inl EnforcedPause
       \<and> execute s e (Transfer name newOwner) = Inl EnforcedPause
       \<and> apply_call s e (Register name dat msg_value accepts calls) = s
       \<and> apply_call s e (Update name dat) = s
       \<and> apply_call s e (Transfer name newOwner) = s
       \<and> (execute s0 e0 Pause = Inr s \<longrightarrow>
            getRecord s name = getRecord s0 name
          \<and> isAvailable s name = isAvailable s0 name
          \<and> getOwnedNames s account = getOwnedNames s0 account
          \<and> registrationFee s = registrationFee s0)
       \<and> (msg_sender e = ownable_owner s \<longrightarrow>
            succeeds s e (SetRegistrationFee newFee)
          \<and> registrationFee (apply_call s e (SetRegistrationFee newFee)) = newFee
          \<and> succeeds s e Unpause
          \<and> \<not> paused (apply_call s e Unpause)
          \<and> (status s = NOT_ENTERED \<and> target \<noteq> 0 \<and> 0 < balances s (this s)
                \<and> (accepts \<or> target = this s) \<longrightarrow>
                succeeds s e (Withdraw target accepts payout))
          \<and> execute s e Pause = Inl EnforcedPause)"
proof -
  have blocked: "(execute s e (Register name dat msg_value accepts calls) = Inl EnforcedPause
          \<or> execute s e (Register name dat msg_value accepts calls) = Inl InsufficientBalance)
       \<and> execute s e (Update name dat) = Inl EnforcedPause
       \<and> execute s e (Transfer name newOwner) = Inl EnforcedPause"
    using assms by (simp add: call_defs modifier_defs)
  then have same: "apply_call s e (Register name dat msg_value accepts calls) = s
       \<and> apply_call s e (Update name dat) = s
       \<and> apply_call s e (Transfer name newOwner) = s"
    by (auto simp: apply_call_def)
  have views: "execute s0 e0 Pause = Inr s \<longrightarrow>
            getRecord s name = getRecord s0 name
          \<and> isAvailable s name = isAvailable s0 name
          \<and> getOwnedNames s account = getOwnedNames s0 account
          \<and> registrationFee s = registrationFee s0"
  proof
    assume "execute s0 e0 Pause = Inr s"
    then have "pause s0 e0 = Inr s" by simp
    from pause_effect [OF this]
    show "getRecord s name = getRecord s0 name
          \<and> isAvailable s name = isAvailable s0 name
          \<and> getOwnedNames s account = getOwnedNames s0 account
          \<and> registrationFee s = registrationFee s0"
      by (simp add: getRecord_def isAvailable_def getOwnedNames_def)
  qed
  have admin: "msg_sender e = ownable_owner s \<longrightarrow>
            succeeds s e (SetRegistrationFee newFee)
          \<and> registrationFee (apply_call s e (SetRegistrationFee newFee)) = newFee
          \<and> succeeds s e Unpause
          \<and> \<not> paused (apply_call s e Unpause)
          \<and> execute s e Pause = Inl EnforcedPause"
    using assms by (auto simp: call_defs modifier_defs Let_def)
  have payout: "msg_sender e = ownable_owner s \<longrightarrow>
      (status s = NOT_ENTERED \<and> target \<noteq> 0 \<and> 0 < balances s (this s)
                \<and> (accepts \<or> target = this s) \<longrightarrow>
                succeeds s e (Withdraw target accepts payout))"
    by (simp add: withdraw_succeeds_iff)
  from blocked same views admin payout show ?thesis by blast
qed

theorem pause_gating_witness:
  "paused alice_paused
   \<and> execute alice_paused (at 3 9) (Register ''bob'' ''hi'' 1000 True []) = Inl EnforcedPause
   \<and> apply_call alice_paused (at 2 9) (Update ''alice'' ''new'') = alice_paused
   \<and> getRecord alice_paused ''alice'' = (2, ''hello'', 7, 7)
   \<and> getRecord alice_registered ''alice'' = (2, ''hello'', 7, 7)
   \<and> succeeds alice_paused (at 1 9) Unpause
   \<and> succeeds alice_paused (at 1 9) (Withdraw 3 True [])"
proof -
  have p: "paused alice_paused"
    by (simp add: example_defs call_defs modifier_defs Let_def)
  have q: "execute alice_registered (at 1 8) Pause = Inr alice_paused"
    by (simp add: example_defs call_defs modifier_defs Let_def)
  have v: "getRecord alice_registered ''alice'' = (2, ''hello'', 7, 7)"
    by (simp add: getRecord_def example_defs call_defs modifier_defs Let_def)
  have r: "execute alice_paused (at 3 9) (Register ''bob'' ''hi'' 1000 True [])
           \<noteq> Inl InsufficientBalance"
    by (simp add: example_defs call_defs modifier_defs Let_def)
  have a: "msg_sender (at 1 9) = ownable_owner alice_paused"
       "status alice_paused = NOT_ENTERED" "0 < balances alice_paused (this alice_paused)"
       "(3::address) \<noteq> 0"
    by (simp_all add: example_defs call_defs modifier_defs Let_def)
  from pause_gating [OF p, where e = "at 3 9" and name = "''bob''" and dat = "''hi''"
      and msg_value = 1000 and accepts = True and calls = "[]" and payout = "[]"
      and newOwner = 3 and ?s0.0 = alice_registered
      and ?e0.0 = "at 1 8" and account = 2 and newFee = 0 and target = 3] r
  have one: "execute alice_paused (at 3 9) (Register ''bob'' ''hi'' 1000 True [])
     = Inl EnforcedPause"
    by blast
  from pause_gating [OF p, where e = "at 2 9" and name = "''alice''" and dat = "''new''"
      and msg_value = 1000 and accepts = True and calls = "[]" and payout = "[]"
      and newOwner = 3 and ?s0.0 = alice_registered
      and ?e0.0 = "at 1 8" and account = 2 and newFee = 0 and target = 3] q v
  have two: "apply_call alice_paused (at 2 9) (Update ''alice'' ''new'') = alice_paused
     \<and> getRecord alice_paused ''alice'' = (2, ''hello'', 7, 7)"
    by simp
  from pause_gating [OF p, where e = "at 1 9" and name = "''alice''" and dat = "''new''"
      and msg_value = 1000 and accepts = True and calls = "[]" and payout = "[]"
      and newOwner = 3 and ?s0.0 = alice_registered
      and ?e0.0 = "at 1 8" and account = 2 and newFee = 0 and target = 3] a
  have three: "succeeds alice_paused (at 1 9) Unpause
     \<and> succeeds alice_paused (at 1 9) (Withdraw 3 True [])"
    by simp
  from p one two v three show ?thesis by simp
qed

text \<open>
  C6 as the specification words it fails: \<open>pause\<close> is not available to the admin while
  the registry is paused.
\<close>

theorem pause_gating_counterexample:
  "paused genesis_paused
   \<and> msg_sender (at 1 9) = ownable_owner genesis_paused
   \<and> execute genesis_paused (at 1 9) Pause = Inl EnforcedPause
   \<and> \<not> succeeds genesis_paused (at 1 9) Pause"
  by (simp add: example_defs call_defs modifier_defs Let_def)

text \<open>
  C8, as the code has it. A call \<open>withdraw(to)\<close> succeeds exactly when the caller is the
  admin, the call is not made from inside a refund or payout of the registry, \<open>to\<close> is
  not the zero address, the registry's balance is positive and the payout is accepted,
  which it always is when \<open>to\<close> is the registry itself. On success with \<open>to\<close> other than
  the registry and a recipient that deposits nothing back while it is paid, the
  registry's balance is zero and \<open>to\<close> holds that much more; on success with \<open>to\<close> the
  registry itself, every balance is as before. The last event of a successful call
  carries the balance read before the payout. Records and owned names are as before when
  the recipient makes no call into the registry, and a failed call leaves the whole
  state as it was.
\<close>

theorem withdraw_exact:
  assumes "c = Withdraw target accepts calls"
    and "s' = apply_call s e c"
  shows "(succeeds s e c \<longleftrightarrow>
            msg_sender e = ownable_owner s \<and> status s = NOT_ENTERED \<and> target \<noteq> 0
          \<and> 0 < balances s (this s) \<and> (accepts \<or> target = this s))
       \<and> (succeeds s e c \<and> target \<noteq> this s \<and> no_deposit_back c \<longrightarrow>
            balances s' (this s') = 0
          \<and> balances s' target = balances s target + balances s (this s))
       \<and> (succeeds s e c \<and> target = this s \<longrightarrow> balances s' = balances s)
       \<and> (succeeds s e c \<longrightarrow> last (events s') = FundsWithdrawn target (balances s (this s)))
       \<and> (succeeds s e c \<and> (calls = [] \<or> target = this s) \<longrightarrow>
            registry s' = registry s \<and> ownedNames s' = ownedNames s)
       \<and> (\<not> succeeds s e c \<longrightarrow> s' = s)"
proof -
  have iff: "succeeds s e c \<longleftrightarrow>
            msg_sender e = ownable_owner s \<and> status s = NOT_ENTERED \<and> target \<noteq> 0
          \<and> 0 < balances s (this s) \<and> (accepts \<or> target = this s)"
    using assms(1) by (simp add: withdraw_succeeds_iff)
  have fail: "\<not> succeeds s e c \<longrightarrow> s' = s"
    using assms(2) by (simp add: failed_apply_call)
  have ok: "succeeds s e c \<longrightarrow>
       (target \<noteq> this s \<and> no_deposit_back c \<longrightarrow>
            balances s' (this s') = 0
          \<and> balances s' target = balances s target + balances s (this s))
       \<and> (target = this s \<longrightarrow> balances s' = balances s)
       \<and> last (events s') = FundsWithdrawn target (balances s (this s))
       \<and> (calls = [] \<or> target = this s \<longrightarrow>
            registry s' = registry s \<and> ownedNames s' = ownedNames s)"
  proof
    assume "succeeds s e c"
    then have ex: "withdraw s e target accepts (\<lambda>s. reenter s e calls) = Inr s'"
      using assms succeeds_execute [of s e c] by simp
    from ex obtain t where t: "registry t = registry s" "ownedNames t = ownedNames s"
      and self: "target = this s \<longrightarrow> balances t = balances s"
      and fin: "s' = (emit t (FundsWithdrawn target (balances s (this s))))
                      \<lparr>status := NOT_ENTERED\<rparr>
         \<or> (target \<noteq> this s
             \<and> s' = (emit (reenter t e calls) (FundsWithdrawn target (balances s (this s))))
                      \<lparr>status := NOT_ENTERED\<rparr>)"
      by (rule withdraw_result) blast
    from fin have ev: "last (events s') = FundsWithdrawn target (balances s (this s))"
      by (auto simp: emit_def)
    from fin t have frame: "calls = [] \<or> target = this s \<longrightarrow>
            registry s' = registry s \<and> ownedNames s' = ownedNames s"
      by (auto simp: emit_def)
    from fin self have same: "target = this s \<longrightarrow> balances s' = balances s"
      by (auto simp: emit_def)
    have here: "this s' = this s"
      using assms(2) by (simp add: step_this)
    have moved: "target \<noteq> this s \<and> no_deposit_back c \<longrightarrow>
            balances s' (this s') = 0
          \<and> balances s' target = balances s target + balances s (this s)"
    proof
      assume a: "target \<noteq> this s \<and> no_deposit_back c"
      with assms(1) have "list_all (\<lambda>(sender, inner). \<not> is_deposit inner) calls"
        by (simp add: no_deposit_back_def)
      moreover from a have "this s \<noteq> target" by auto
      ultimately show "balances s' (this s') = 0
          \<and> balances s' target = balances s target + balances s (this s)"
        using withdraw_balance(1) [OF ex] a here by simp
    qed
    from moved same ev frame
    show "(target \<noteq> this s \<and> no_deposit_back c \<longrightarrow>
            balances s' (this s') = 0
          \<and> balances s' target = balances s target + balances s (this s))
       \<and> (target = this s \<longrightarrow> balances s' = balances s)
       \<and> last (events s') = FundsWithdrawn target (balances s (this s))
       \<and> (calls = [] \<or> target = this s \<longrightarrow>
            registry s' = registry s \<and> ownedNames s' = ownedNames s)"
      by blast
  qed
  from fail ok
  have "(succeeds s e c \<and> target \<noteq> this s \<and> no_deposit_back c \<longrightarrow>
            balances s' (this s') = 0
          \<and> balances s' target = balances s target + balances s (this s))
       \<and> (succeeds s e c \<and> target = this s \<longrightarrow> balances s' = balances s)
       \<and> (succeeds s e c \<longrightarrow> last (events s') = FundsWithdrawn target (balances s (this s)))
       \<and> (succeeds s e c \<and> (calls = [] \<or> target = this s) \<longrightarrow>
            registry s' = registry s \<and> ownedNames s' = ownedNames s)
       \<and> (\<not> succeeds s e c \<longrightarrow> s' = s)"
    by (cases "succeeds s e c") simp_all
  with iff show ?thesis by (rule conjI)
qed

theorem withdraw_exact_witness:
  "succeeds alice_registered (at 1 9) (Withdraw 3 True [(3, Update ''alice'' ''x'')])
   \<and> balances (apply_call alice_registered (at 1 9)
        (Withdraw 3 True [(3, Update ''alice'' ''x'')])) 100 = 0
   \<and> balances (apply_call alice_registered (at 1 9)
        (Withdraw 3 True [(3, Update ''alice'' ''x'')])) 3 = 6000
   \<and> last (events (apply_call alice_registered (at 1 9)
        (Withdraw 3 True [(3, Update ''alice'' ''x'')]))) = FundsWithdrawn 3 1000
   \<and> \<not> succeeds alice_registered (at 1 9) (Withdraw 3 False [])
   \<and> apply_call alice_registered (at 1 9) (Withdraw 3 False []) = alice_registered
   \<and> apply_call alice_registered (at 2 9) (Withdraw 2 True []) = alice_registered
   \<and> succeeds alice_registered (at 1 9) (Withdraw 100 False [])
   \<and> balances (apply_call alice_registered (at 1 9) (Withdraw 100 False []))
       = balances alice_registered
   \<and> registry (apply_call alice_registered (at 1 9) (Withdraw 100 False []))
       = registry alice_registered"
proof -
  have nd: "no_deposit_back (Withdraw 3 True [(3, Update ''alice'' ''x'')])"
    by (simp add: no_deposit_back_def)
  have pre: "msg_sender (at 1 9) = ownable_owner alice_registered"
      "status alice_registered = NOT_ENTERED" "(3::address) \<noteq> 0" "(100::address) \<noteq> 0"
      "0 < balances alice_registered (this alice_registered)"
      "this alice_registered = 100" "(3::address) \<noteq> 100"
      "balances alice_registered 100 = 1000" "balances alice_registered 3 = 5000"
      "msg_sender (at 2 9) \<noteq> ownable_owner alice_registered"
    by (simp_all add: example_defs call_defs modifier_defs Let_def)
  from withdraw_exact [where s = alice_registered and e = "at 1 9" and target = 3
      and accepts = True and calls = "[(3, Update ''alice'' ''x'')]", OF refl refl] nd pre
  have one: "succeeds alice_registered (at 1 9) (Withdraw 3 True [(3, Update ''alice'' ''x'')])
     \<and> balances (apply_call alice_registered (at 1 9)
          (Withdraw 3 True [(3, Update ''alice'' ''x'')])) 100 = 0
     \<and> balances (apply_call alice_registered (at 1 9)
          (Withdraw 3 True [(3, Update ''alice'' ''x'')])) 3 = 6000
     \<and> last (events (apply_call alice_registered (at 1 9)
          (Withdraw 3 True [(3, Update ''alice'' ''x'')]))) = FundsWithdrawn 3 1000"
    by (simp add: step_this)
  from withdraw_exact [where s = alice_registered and e = "at 1 9" and target = 3
      and accepts = False and calls = "[]", OF refl refl] pre
  have two: "\<not> succeeds alice_registered (at 1 9) (Withdraw 3 False [])
     \<and> apply_call alice_registered (at 1 9) (Withdraw 3 False []) = alice_registered"
    by simp
  from withdraw_exact [where s = alice_registered and e = "at 2 9" and target = 2
      and accepts = True and calls = "[]", OF refl refl] pre
  have three: "apply_call alice_registered (at 2 9) (Withdraw 2 True []) = alice_registered"
    by simp
  from withdraw_exact [where s = alice_registered and e = "at 1 9" and target = 100
      and accepts = False and calls = "[]", OF refl refl] pre
  have four: "succeeds alice_registered (at 1 9) (Withdraw 100 False [])
     \<and> balances (apply_call alice_registered (at 1 9) (Withdraw 100 False []))
         = balances alice_registered
     \<and> registry (apply_call alice_registered (at 1 9) (Withdraw 100 False []))
         = registry alice_registered"
    by simp
  from one two three four show ?thesis by simp
qed

text \<open>
  C8 as the specification words it fails four times. The admin withdraws to the
  registry's own address: the call succeeds and the balance is the 1000 wei it was. The
  admin withdraws to account 3, whose code deposits the 1000 wei back during the payout:
  the call succeeds and the balance is 1000 again. The payout is refused: the call fails
  though the caller is the admin, the recipient is not zero and the balance is positive.
  And the same call made from inside a refund or payout is refused by the guard.
\<close>

theorem withdraw_exact_counterexample:
  "msg_sender (at 1 9) = ownable_owner alice_registered
   \<and> this alice_registered = 100
   \<and> 0 < balances alice_registered 100
   \<and> succeeds alice_registered (at 1 9) (Withdraw 100 True [])
   \<and> balances (apply_call alice_registered (at 1 9) (Withdraw 100 True [])) 100 = 1000
   \<and> succeeds alice_registered (at 1 9) (Withdraw 3 True [(3, Receive 1000)])
   \<and> balances (apply_call alice_registered (at 1 9) (Withdraw 3 True [(3, Receive 1000)])) 100
       = 1000
   \<and> \<not> succeeds alice_registered (at 1 9) (Withdraw 3 False [])
   \<and> msg_sender (at 1 9) = ownable_owner alice_entered
   \<and> 0 < balances alice_entered 100
   \<and> \<not> succeeds alice_entered (at 1 9) (Withdraw 3 True [])"
  by (simp add: example_defs call_defs modifier_defs Let_def)

section \<open>Balance accounting\<close>




end
